theory Spec2Isabelle
  imports Main
begin

section \<open>The store of the library manager\<close>

text \<open>
  The program keeps two SQLite tables in the file \<^verbatim>\<open>library.db\<close>:
  \<^verbatim>\<open>users (username TEXT, password TEXT)\<close> and
  \<^verbatim>\<open>books (id INTEGER PRIMARY KEY AUTOINCREMENT, title TEXT, author TEXT, category TEXT)\<close>.
  Every function of \<^verbatim>\<open>library_manager.py\<close> runs one SQL statement on them. The
  statements are embedded by what they do to the tables: a table is the list of its rows
  in the order a full scan yields them (the order of insertion, which for \<^verbatim>\<open>books\<close>
  is the order of the row ids), a row is the tuple that \<^verbatim>\<open>fetchall\<close> returns, and
  \<^verbatim>\<open>conn.commit()\<close> makes the new tables the state of the file.

  Text values are \<^typ>\<open>string\<close>; SQLite compares them with \<^verbatim>\<open>=\<close> under the
  default BINARY collation, which is equality of the character lists.
\<close>

type_synonym user_row = "string \<times> string"

type_synonym book_row = "int \<times> string \<times> string \<times> string"

text \<open>
  The columns of a book row by position, as the program reads them: \<^verbatim>\<open>book[0]\<close> is
  the id, \<^verbatim>\<open>book[1]\<close> the title, \<^verbatim>\<open>book[2]\<close> the author and \<^verbatim>\<open>book[3]\<close>
  the category (\<^verbatim>\<open>SELECT *\<close> yields the columns in the order of the schema).
\<close>

fun col0 :: "book_row \<Rightarrow> int" where
  "col0 (i, t, a, c) = i"

fun col1 :: "book_row \<Rightarrow> string" where
  "col1 (i, t, a, c) = t"

fun col2 :: "book_row \<Rightarrow> string" where
  "col2 (i, t, a, c) = a"

fun col3 :: "book_row \<Rightarrow> string" where
  "col3 (i, t, a, c) = c"

definition book_id :: "book_row \<Rightarrow> int" where
  "book_id b = col0 b"

definition title :: "book_row \<Rightarrow> string" where
  "title b = col1 b"

definition author :: "book_row \<Rightarrow> string" where
  "author b = col2 b"

definition category :: "book_row \<Rightarrow> string" where
  "category b = col3 b"

text \<open>
  The state of the database file. \<open>books_seq\<close> is the entry of \<^verbatim>\<open>books\<close> in
  \<^verbatim>\<open>sqlite_sequence\<close>, the largest row id the table has ever held (0 before the first
  insertion); SQLite keeps it for every AUTOINCREMENT table.
\<close>

record db =
  users :: "user_row list"
  books :: "book_row list"
  books_seq :: int

datatype error =
    DatabaseFull      \<comment> \<open>\<^verbatim>\<open>sqlite3.OperationalError: database or disk is full\<close>\<close>
  | OverflowError     \<comment> \<open>\<^verbatim>\<open>Python int too large to convert to SQLite INTEGER\<close>\<close>

text \<open>Row ids are 64-bit signed integers.\<close>

definition MAX_ROWID :: int where
  "MAX_ROWID = 9223372036854775807"

definition MIN_ROWID :: int where
  "MIN_ROWID = - 9223372036854775808"

definition sqlite_integer :: "int \<Rightarrow> bool" where
  "sqlite_integer i \<longleftrightarrow> MIN_ROWID \<le> i \<and> i \<le> MAX_ROWID"

subsection \<open>\<^verbatim>\<open>init_db\<close>\<close>

text \<open>
  \<^verbatim>\<open>sqlite3.connect\<close> creates the file when it is missing, and both tables are created
  only \<^verbatim>\<open>IF NOT EXISTS\<close>: a file that is there is left as it is.
\<close>

definition fresh_db :: db where
  "fresh_db = \<lparr>users = [], books = [], books_seq = 0\<rparr>"

definition init_db :: "db option \<Rightarrow> db" where
  "init_db file = (case file of None \<Rightarrow> fresh_db | Some d \<Rightarrow> d)"

subsection \<open>Cursors\<close>

definition fetchall :: "'a list \<Rightarrow> 'a list" where
  "fetchall rows = rows"

definition fetchone :: "'a list \<Rightarrow> 'a option" where
  "fetchone rows = (case rows of [] \<Rightarrow> None | r # _ \<Rightarrow> Some r)"

subsection \<open>Users\<close>

text \<open>
  \<^verbatim>\<open>SELECT * FROM users WHERE username=? AND password=?\<close>, then
  \<^verbatim>\<open>cur.fetchone() is not None\<close>.
\<close>

definition select_users :: "db \<Rightarrow> string \<Rightarrow> string \<Rightarrow> user_row list" where
  "select_users d username password =
     filter (\<lambda>r. fst r = username \<and> snd r = password) (users d)"

definition validate_user :: "db \<Rightarrow> string \<Rightarrow> string \<Rightarrow> bool" where
  "validate_user d username password \<longleftrightarrow>
     fetchone (select_users d username password) \<noteq> None"

text \<open>\<^verbatim>\<open>INSERT INTO users VALUES (?, ?)\<close>: the table has no key and no constraint.\<close>

definition register_user :: "db \<Rightarrow> string \<Rightarrow> string \<Rightarrow> db" where
  "register_user d username password =
     d\<lparr>users := users d @ [(username, password)]\<rparr>"

subsection \<open>Books\<close>

definition CATEGORIES :: "string list" where
  "CATEGORIES = [''Fiction'', ''Non-fiction'', ''Academic'', ''Religious'', ''Other'']"

text \<open>
  \<^verbatim>\<open>INSERT INTO books (title, author, category) VALUES (?, ?, ?)\<close>. The id is chosen by
  AUTOINCREMENT: one more than the largest row id the table has ever held; when that is
  the largest row id there is, the insertion fails with \<^verbatim>\<open>SQLITE_FULL\<close> and changes
  nothing.
\<close>

definition add_book :: "db \<Rightarrow> string \<Rightarrow> string \<Rightarrow> string \<Rightarrow> error + db" where
  "add_book d t a c =
     (if books_seq d = MAX_ROWID then Inl DatabaseFull
      else let v = books_seq d + 1
           in Inr (d\<lparr>books := books d @ [(v, t, a, c)], books_seq := v\<rparr>))"

text \<open>
  \<^verbatim>\<open>UPDATE books SET title=?, author=?, category=? WHERE id=?\<close>. An id that is no
  64-bit integer is refused when the parameter is bound, before the statement runs.
\<close>

definition edit_book :: "db \<Rightarrow> int \<Rightarrow> string \<Rightarrow> string \<Rightarrow> string \<Rightarrow> error + db" where
  "edit_book d bid t a c =
     (if \<not> sqlite_integer bid then Inl OverflowError
      else Inr (d\<lparr>books := map (\<lambda>b. if col0 b = bid then (col0 b, t, a, c) else b) (books d)\<rparr>))"

text \<open>\<^verbatim>\<open>DELETE FROM books WHERE id=?\<close>. The sequence entry stays as it is.\<close>

definition delete_book :: "db \<Rightarrow> int \<Rightarrow> error + db" where
  "delete_book d bid =
     (if \<not> sqlite_integer bid then Inl OverflowError
      else Inr (d\<lparr>books := filter (\<lambda>b. col0 b \<noteq> bid) (books d)\<rparr>))"

text \<open>
  \<^verbatim>\<open>get_books(cur, filter_cat="All")\<close>: the whole table for the sentinel, else
  \<^verbatim>\<open>SELECT * FROM books WHERE category=?\<close>.
\<close>

definition get_books :: "db \<Rightarrow> string \<Rightarrow> book_row list" where
  "get_books d filter_cat =
     (if filter_cat = ''All'' then fetchall (books d)
      else fetchall (filter (\<lambda>b. col3 b = filter_cat) (books d)))"

subsection \<open>Strings: \<^verbatim>\<open>lower\<close> and \<^verbatim>\<open>in\<close>\<close>

text \<open>
  \<^verbatim>\<open>str.lower\<close>. The lowercase of the empty string is the empty string. The lowercase
  of any other string is what the case mappings of the Unicode database of the running
  Python make of it; they are no part of the repository and are the parameter
  \<open>case_map\<close>, a function on texts. Nothing is assumed of it: the theorems about
  \<open>search_books\<close> hold for every case mapping.
\<close>

definition lower :: "(string \<Rightarrow> string) \<Rightarrow> string \<Rightarrow> string" where
  "lower case_map s = (if s = [] then [] else case_map s)"

text \<open>
  The case mapping on texts of ASCII characters, where \<^verbatim>\<open>str.lower\<close> turns the letters
  \<^verbatim>\<open>A\<close> to \<^verbatim>\<open>Z\<close> into \<^verbatim>\<open>a\<close> to \<^verbatim>\<open>z\<close> and keeps every other character. It
  serves to run the search on examples written in ASCII.
\<close>

definition lower_char :: "char \<Rightarrow> char" where
  "lower_char c =
     (let n = (of_char c :: nat)
      in if of_char CHR ''A'' \<le> n \<and> n \<le> of_char CHR ''Z'' then char_of (n + 32) else c)"

definition ascii_case_map :: "string \<Rightarrow> string" where
  "ascii_case_map s = map lower_char s"

text \<open>\<^verbatim>\<open>q in s\<close> on strings: \<open>q\<close> occurs in \<open>s\<close> as a contiguous block.\<close>

fun starts_with :: "string \<Rightarrow> string \<Rightarrow> bool" where
  "starts_with s [] = True"
| "starts_with [] (c # q) = False"
| "starts_with (x # s) (c # q) = (x = c \<and> starts_with s q)"

fun str_in :: "string \<Rightarrow> string \<Rightarrow> bool" where
  "str_in q [] = (q = [])"
| "str_in q (x # s) = (starts_with (x # s) q \<or> str_in q s)"

text \<open>
  \<^verbatim>\<open>search_books\<close>: the whole table, then the comprehension
  \<^verbatim>\<open>[book for book in books if query.lower() in book[1].lower() or query.lower() in book[2].lower()]\<close>.
\<close>

definition search_books :: "(string \<Rightarrow> string) \<Rightarrow> db \<Rightarrow> string \<Rightarrow> book_row list" where
  "search_books case_map d query =
     (let bs = fetchall (books d)
      in filter (\<lambda>book. str_in (lower case_map query) (lower case_map (col1 book))
                       \<or> str_in (lower case_map query) (lower case_map (col2 book))) bs)"

subsection \<open>\<^verbatim>\<open>export_books_csv\<close>\<close>





















subsection \<open>Reading CSV\<close>


definition push_char :: "char \<Rightarrow> string list list \<Rightarrow> string list list" where
  "push_char c records =
     (case records of
        [] \<Rightarrow> [[[c]]]
      | [] # rs \<Rightarrow> [[c]] # rs
      | (f # fs) # rs \<Rightarrow> ((c # f) # fs) # rs)"




definition push :: "string \<Rightarrow> string list list \<Rightarrow> string list list" where
  "push f records = foldr push_char f records"











subsection \<open>The author-or-category reading of the search\<close>

text \<open>
  The search as the specification words it (author or category), for comparison with
  \<open>search_books\<close> above, which is the search as the program has it.
\<close>

definition search_books_claimed :: "(string \<Rightarrow> string) \<Rightarrow> db \<Rightarrow> string \<Rightarrow> book_row list" where
  "search_books_claimed case_map d query =
     filter (\<lambda>book. str_in (lower case_map query) (lower case_map (author book))
                    \<or> str_in (lower case_map query) (lower case_map (category book)))
       (get_books d ''All'')"

subsection \<open>Histories of the database file\<close>

text \<open>
  The calls that change the file. Each one commits on its own, and a call that raises
  leaves the file as it was; the session goes on from there.
\<close>

datatype command =
    RegisterUser string string
  | AddBook string string string
  | EditBook int string string string
  | DeleteBook int

fun exec :: "db \<Rightarrow> command \<Rightarrow> error + db" where
  "exec d (RegisterUser u p) = Inr (register_user d u p)"
| "exec d (AddBook t a c) = add_book d t a c"
| "exec d (EditBook i t a c) = edit_book d i t a c"
| "exec d (DeleteBook i) = delete_book d i"

text \<open>The states the file goes through, the first one first.\<close>

fun history :: "db \<Rightarrow> command list \<Rightarrow> db list" where
  "history d [] = [d]"
| "history d (x # xs) =
     d # (case exec d x of Inl e \<Rightarrow> history d xs | Inr d' \<Rightarrow> history d' xs)"

text \<open>
  The life of a database file starts when \<open>init_db\<close> creates it. \<open>state_after\<close> is
  the state of the file after a sequence of calls, \<open>ids_ever\<close> the ids of all rows
  that any state up to then has held, deleted ones included.
\<close>

definition state_after :: "command list \<Rightarrow> db" where
  "state_after cmds = last (history (init_db None) cmds)"

definition ids_ever :: "command list \<Rightarrow> int list" where
  "ids_ever cmds = concat (map (\<lambda>s. map book_id (books s)) (history (init_db None) cmds))"

definition ids_bounded :: "db \<Rightarrow> bool" where
  "ids_bounded d \<longleftrightarrow> (\<forall>b \<in> set (books d). col0 b \<le> books_seq d)"

definition ids_increasing :: "db \<Rightarrow> bool" where
  "ids_increasing d \<longleftrightarrow> sorted_wrt (<) (map col0 (books d))"

subsection \<open>Example states\<close>

definition dup_users :: db where
  "dup_users = \<lparr>users = [(''a'', ''p''), (''a'', ''p'')], books = [], books_seq = 0\<rparr>"

definition dune_db :: db where
  "dune_db = \<lparr>users = [], books = [(1, ''Dune'', ''Herbert'', ''Fiction'')], books_seq = 1\<rparr>"

definition shelf :: db where
  "shelf = \<lparr>users = [],
            books = [(1, ''Dune'', ''Herbert'', ''Fiction''),
                     (2, ''Algebra'', ''Lang'', ''Academic''),
                     (4, ''Emma'', ''Austen'', ''Fiction'')],
            books_seq = 5\<rparr>"

definition session :: "command list" where
  "session = [AddBook ''Dune'' ''Herbert'' ''Fiction'',
              AddBook ''Emma'' ''Austen'' ''Fiction'',
              DeleteBook 2]"



section \<open>Properties\<close>

subsection \<open>Users\<close>

lemma fetchone_None_iff: "fetchone rows = None \<longleftrightarrow> rows = []"
  by (simp add: fetchone_def split: list.splits)

lemma validate_user_iff_mem:
  "validate_user d u p \<longleftrightarrow> (u, p) \<in> set (users d)"
proof -
  have "select_users d u p \<noteq> [] \<longleftrightarrow> (u, p) \<in> set (users d)"
    by (force simp: select_users_def filter_empty_conv)
  then show ?thesis
    by (simp add: validate_user_def fetchone_None_iff)
qed

text \<open>
  C2, as amended. In every state of the users table and for every pair of a username and
  a password, \<open>validate_user\<close> returns true if and only if at least one stored row
  equals the pair in both fields; the number of such rows beyond the first plays no part.
\<close>

theorem validate_user_at_least_one:
  "validate_user d u p \<longleftrightarrow> 1 \<le> count_list (users d) (u, p)"
proof -
  have "1 \<le> count_list (users d) (u, p) \<longleftrightarrow> (u, p) \<in> set (users d)"
    using count_list_0_iff [of "users d" "(u, p)"] by arith
  then show ?thesis by (simp add: validate_user_iff_mem)
qed

text \<open>
  C2, as stated, fails: with two stored rows \<^verbatim>\<open>("a", "p")\<close> the pair matches two
  rows, not exactly one, and \<open>validate_user\<close> returns true.
\<close>

theorem validate_user_two_rows:
  "count_list (users dup_users) (''a'', ''p'') = 2 \<and> validate_user dup_users ''a'' ''p''"
  by code_simp

text \<open>
  C8. In every state of the store, registering the pair \<^verbatim>\<open>("a", "p")\<close> twice inserts
  a row each time, whatever the table holds already: the users table afterwards is the
  table from before with two rows \<^verbatim>\<open>("a", "p")\<close> appended, and the books and the id
  sequence are as before. Validating \<^verbatim>\<open>("a", "p")\<close> then returns true.
\<close>

theorem register_twice_then_validate:
  "users (register_user (register_user d ''a'' ''p'') ''a'' ''p'')
     = users d @ [(''a'', ''p''), (''a'', ''p'')]
   \<and> books (register_user (register_user d ''a'' ''p'') ''a'' ''p'') = books d
   \<and> books_seq (register_user (register_user d ''a'' ''p'') ''a'' ''p'') = books_seq d
   \<and> validate_user (register_user (register_user d ''a'' ''p'') ''a'' ''p'') ''a'' ''p''"
  by (simp add: validate_user_iff_mem register_user_def)

text \<open>
  C9. \<open>validate_user\<close> compares exactly and with case: in every state of the users
  table whose rows are all the pair \<^verbatim>\<open>("a", "p")\<close>, validating \<^verbatim>\<open>("A", "p")\<close>
  returns false; and in every state, a pair that is none of the stored rows (it differs
  from each of them in the username or in the password) is not validated.
\<close>

theorem validate_user_exact:
  "(set (users d) \<subseteq> {(''a'', ''p'')} \<longrightarrow> \<not> validate_user d ''A'' ''p'')
   \<and> ((u, p) \<notin> set (users d) \<longrightarrow> \<not> validate_user d u p)"
  by (auto simp: validate_user_iff_mem)

theorem validate_user_exact_witness:
  "set (users (register_user fresh_db ''a'' ''p'')) \<subseteq> {(''a'', ''p'')}
   \<and> (''A'', ''p'') \<notin> set (users (register_user fresh_db ''a'' ''p''))
   \<and> \<not> validate_user (register_user fresh_db ''a'' ''p'') ''A'' ''p''
   \<and> validate_user (register_user fresh_db ''a'' ''p'') ''a'' ''p''"
  using validate_user_exact [of "register_user fresh_db ''a'' ''p''" "''A''" "''p''"]
  by (simp add: register_user_def fresh_db_def validate_user_iff_mem)

subsection \<open>Reading the books\<close>

text \<open>
  C6. In every state of the store and for every category \<open>c\<close> of the fixed set,
  \<open>get_books d c\<close> is the list of those rows of \<open>get_books d ''All''\<close> whose
  category is \<open>c\<close>, in the same order; and \<open>get_books d ''All''\<close> is the whole table.
\<close>

theorem get_books_by_category:
  "c \<in> set CATEGORIES \<Longrightarrow>
     get_books d c = filter (\<lambda>b. category b = c) (get_books d ''All'')
     \<and> get_books d ''All'' = books d"
  by (auto simp: get_books_def fetchall_def category_def CATEGORIES_def)

theorem get_books_by_category_witness:
  "''Fiction'' \<in> set CATEGORIES
   \<and> get_books shelf ''Fiction''
       = [(1, ''Dune'', ''Herbert'', ''Fiction''), (4, ''Emma'', ''Austen'', ''Fiction'')]
   \<and> get_books shelf ''Fiction'' = filter (\<lambda>b. category b = ''Fiction'') (get_books shelf ''All'')
   \<and> get_books shelf ''All'' = books shelf"
proof -
  have h: "''Fiction'' \<in> set CATEGORIES" by (simp add: CATEGORIES_def)
  have e: "get_books shelf ''Fiction''
       = [(1, ''Dune'', ''Herbert'', ''Fiction''), (4, ''Emma'', ''Austen'', ''Fiction'')]"
    by (simp add: get_books_def fetchall_def shelf_def)
  show ?thesis using h e get_books_by_category [OF h, of shelf] by simp
qed

subsection \<open>Searching\<close>

lemma str_in_Nil: "str_in [] s"
  by (induction s) auto

lemma lower_Nil: "lower case_map [] = []"
  by (simp add: lower_def)

lemma starts_with_iff: "starts_with s q \<longleftrightarrow> (\<exists>ss. s = q @ ss)"
  by (induction s q rule: starts_with.induct) auto

text \<open>\<open>str_in\<close> is the substring test.\<close>

lemma str_in_iff: "str_in q s \<longleftrightarrow> (\<exists>ps ss. s = ps @ q @ ss)"
proof (induction s)
  case Nil
  then show ?case by auto
next
  case (Cons x s)
  show ?case
  proof
    assume "str_in q (x # s)"
    then consider "starts_with (x # s) q" | "str_in q s" by auto
    then show "\<exists>ps ss. x # s = ps @ q @ ss"
    proof cases
      case 1
      then obtain ss where "x # s = q @ ss" by (auto simp: starts_with_iff)
      then have "x # s = [] @ q @ ss" by simp
      then show ?thesis by blast
    next
      case 2
      then obtain ps ss where "s = ps @ q @ ss" using Cons.IH by blast
      then have "x # s = (x # ps) @ q @ ss" by simp
      then show ?thesis by blast
    qed
  next
    assume "\<exists>ps ss. x # s = ps @ q @ ss"
    then obtain ps ss where eq: "x # s = ps @ q @ ss" by blast
    show "str_in q (x # s)"
    proof (cases ps)
      case Nil
      then have "starts_with (x # s) q" using eq by (auto simp: starts_with_iff)
      then show ?thesis by simp
    next
      case (Cons y ps')
      then have "s = ps' @ q @ ss" using eq by simp
      then have "str_in q s" using Cons.IH by blast
      then show ?thesis by simp
    qed
  qed
qed

text \<open>
  C1, as amended. In every state of the store, for every query \<open>q\<close> and whatever the
  case mapping of \<^verbatim>\<open>str.lower\<close> is, \<open>search_books\<close> returns the list, in the order of
  \<open>get_books d ''All''\<close>, of exactly those books for which the lowercased query is a
  substring of the lowercased title or of the lowercased author. The category is not
  looked at.
\<close>

theorem search_books_title_or_author:
  "search_books case_map d q =
     filter (\<lambda>b. (\<exists>ps ss. lower case_map (title b) = ps @ lower case_map q @ ss)
               \<or> (\<exists>ps ss. lower case_map (author b) = ps @ lower case_map q @ ss))
       (get_books d ''All'')"
  by (simp add: search_books_def get_books_def fetchall_def title_def author_def str_in_iff)

text \<open>
  C1, as stated, fails on the table that holds the one book
  \<^verbatim>\<open>(1, "Dune", "Herbert", "Fiction")\<close>. The query \<^verbatim>\<open>"dune"\<close> occurs in the title
  alone, and the book is returned, where the author-or-category reading returns nothing;
  the query \<^verbatim>\<open>"fiction"\<close> occurs in the category alone, and nothing is returned, where
  that reading returns the book. All the strings are ASCII, where \<^verbatim>\<open>str.lower\<close> is
  \<open>ascii_case_map\<close>.
\<close>

theorem search_books_not_author_or_category:
  "search_books ascii_case_map dune_db ''dune'' = [(1, ''Dune'', ''Herbert'', ''Fiction'')]
   \<and> search_books_claimed ascii_case_map dune_db ''dune'' = []
   \<and> search_books ascii_case_map dune_db ''fiction'' = []
   \<and> search_books_claimed ascii_case_map dune_db ''fiction''
       = [(1, ''Dune'', ''Herbert'', ''Fiction'')]"
  by code_simp

text \<open>
  C10. In every state of the store, and whatever the case mapping of \<^verbatim>\<open>str.lower\<close>
  is, the search for the empty string returns every book of the table, in the order of
  \<open>get_books d ''All''\<close>: the empty string occurs in every string, and
  \<open>search_books\<close> has no case of its own for it.
\<close>

theorem search_books_empty_query:
  "search_books case_map d [] = get_books d ''All''"
  by (simp add: search_books_def get_books_def lower_Nil str_in_Nil)

subsection \<open>Changing the books\<close>

lemma map_if_absent:
  "\<forall>b \<in> set bs. f b \<noteq> i \<Longrightarrow> map (\<lambda>b. if f b = i then g b else b) bs = bs"
  by (induction bs) auto

text \<open>
  C4. In every state of the store and for every id (a 64-bit integer, as SQLite's are),
  \<open>edit_book\<close> raises no error and leaves the users and the id sequence alone. The
  table keeps its length and order; every row whose id is the given one becomes the id
  with the three new fields, every other row is unchanged; and when no row has the id,
  the whole state is unchanged.
\<close>

theorem edit_book_replaces_fields:
  assumes "sqlite_integer i"
  shows "\<exists>d'. exec d (EditBook i t2 a2 c2) = Inr d'
           \<and> users d' = users d \<and> books_seq d' = books_seq d
           \<and> length (get_books d' ''All'') = length (get_books d ''All'')
           \<and> (\<forall>k < length (get_books d ''All'').
                 (book_id (get_books d ''All'' ! k) = i \<longrightarrow>
                    get_books d' ''All'' ! k = (i, t2, a2, c2))
               \<and> (book_id (get_books d ''All'' ! k) \<noteq> i \<longrightarrow>
                    get_books d' ''All'' ! k = get_books d ''All'' ! k))
           \<and> (i \<notin> book_id ` set (get_books d ''All'') \<longrightarrow> d' = d)"
proof -
  let ?f = "\<lambda>b. if col0 b = i then (col0 b, t2, a2, c2) else b"
  let ?d' = "d\<lparr>books := map ?f (books d)\<rparr>"
  have run: "exec d (EditBook i t2 a2 c2) = Inr ?d'"
    using assms by (simp add: edit_book_def)
  have all: "get_books ?d' ''All'' = map ?f (get_books d ''All'')"
    by (simp add: get_books_def fetchall_def)
  have pt: "(book_id (get_books d ''All'' ! k) = i \<longrightarrow>
               get_books ?d' ''All'' ! k = (i, t2, a2, c2))
          \<and> (book_id (get_books d ''All'' ! k) \<noteq> i \<longrightarrow>
               get_books ?d' ''All'' ! k = get_books d ''All'' ! k)"
    if "k < length (get_books d ''All'')" for k
    using that unfolding all by (simp add: book_id_def)
  have noop: "?d' = d" if "i \<notin> book_id ` set (get_books d ''All'')"
  proof -
    have "\<forall>b \<in> set (books d). col0 b \<noteq> i"
      using that by (auto simp: get_books_def fetchall_def book_id_def)
    then have "map ?f (books d) = books d" by (rule map_if_absent)
    then show ?thesis by simp
  qed
  show ?thesis
    using run all pt noop by (intro exI [of _ ?d']) simp
qed

theorem edit_book_replaces_fields_witness:
  "sqlite_integer 2 \<and> sqlite_integer 3
   \<and> book_id (get_books shelf ''All'' ! 1) = 2
   \<and> book_id (get_books shelf ''All'' ! 0) \<noteq> 2
   \<and> (\<exists>d'. exec shelf (EditBook 2 ''Algebra II'' ''Serge Lang'' ''Other'') = Inr d'
          \<and> get_books d' ''All'' ! 1 = (2, ''Algebra II'', ''Serge Lang'', ''Other'')
          \<and> get_books d' ''All'' ! 0 = (1, ''Dune'', ''Herbert'', ''Fiction''))
   \<and> 3 \<notin> book_id ` set (get_books shelf ''All'')
   \<and> exec shelf (EditBook 3 ''Algebra II'' ''Serge Lang'' ''Other'') = Inr shelf"
proof -
  have h2: "sqlite_integer 2" and h3: "sqlite_integer 3"
    by (simp_all add: sqlite_integer_def MIN_ROWID_def MAX_ROWID_def)
  have all: "get_books shelf ''All''
       = [(1, ''Dune'', ''Herbert'', ''Fiction''), (2, ''Algebra'', ''Lang'', ''Academic''),
          (4, ''Emma'', ''Austen'', ''Fiction'')]"
    by (simp add: get_books_def fetchall_def shelf_def)
  have absent: "3 \<notin> book_id ` set (get_books shelf ''All'')"
    unfolding all by (simp add: book_id_def)
  have at1: "book_id (get_books shelf ''All'' ! 1) = 2"
    and at0: "book_id (get_books shelf ''All'' ! 0) \<noteq> 2"
    unfolding all by (simp_all add: book_id_def)
  have len: "0 < length (get_books shelf ''All'')" "1 < length (get_books shelf ''All'')"
    unfolding all by simp_all
  from edit_book_replaces_fields [OF h2, of shelf "''Algebra II''" "''Serge Lang''" "''Other''"]
  obtain d' where run: "exec shelf (EditBook 2 ''Algebra II'' ''Serge Lang'' ''Other'') = Inr d'"
    and pt: "\<forall>k < length (get_books shelf ''All'').
                 (book_id (get_books shelf ''All'' ! k) = 2 \<longrightarrow>
                    get_books d' ''All'' ! k = (2, ''Algebra II'', ''Serge Lang'', ''Other''))
               \<and> (book_id (get_books shelf ''All'' ! k) \<noteq> 2 \<longrightarrow>
                    get_books d' ''All'' ! k = get_books shelf ''All'' ! k)"
    by blast
  have new1: "get_books d' ''All'' ! 1 = (2, ''Algebra II'', ''Serge Lang'', ''Other'')"
    using pt len(2) at1 by blast
  have "get_books d' ''All'' ! 0 = get_books shelf ''All'' ! 0"
    using pt len(1) at0 by blast
  then have new0: "get_books d' ''All'' ! 0 = (1, ''Dune'', ''Herbert'', ''Fiction'')"
    unfolding all by simp
  have present: "\<exists>d'. exec shelf (EditBook 2 ''Algebra II'' ''Serge Lang'' ''Other'') = Inr d'
          \<and> get_books d' ''All'' ! 1 = (2, ''Algebra II'', ''Serge Lang'', ''Other'')
          \<and> get_books d' ''All'' ! 0 = (1, ''Dune'', ''Herbert'', ''Fiction'')"
    using run new1 new0 by blast
  from edit_book_replaces_fields [OF h3, of shelf "''Algebra II''" "''Serge Lang''" "''Other''"] absent
  have noop: "exec shelf (EditBook 3 ''Algebra II'' ''Serge Lang'' ''Other'') = Inr shelf"
    by auto
  show ?thesis using h2 h3 at1 at0 present absent noop by blast
qed

text \<open>
  C5. In every state of the store and for every id (a 64-bit integer), \<open>delete_book\<close>
  raises no error and leaves the users and the id sequence alone; afterwards
  \<open>get_books ''All''\<close> holds no row with that id and holds the rows with other ids
  as they were, in their order; and deleting the same id again raises no error and
  changes nothing.
\<close>

theorem delete_book_removes:
  assumes "sqlite_integer i"
  shows "\<exists>d'. exec d (DeleteBook i) = Inr d'
           \<and> users d' = users d \<and> books_seq d' = books_seq d
           \<and> i \<notin> book_id ` set (get_books d' ''All'')
           \<and> get_books d' ''All'' = filter (\<lambda>b. book_id b \<noteq> i) (get_books d ''All'')
           \<and> exec d' (DeleteBook i) = Inr d'"
proof -
  let ?d' = "d\<lparr>books := filter (\<lambda>b. col0 b \<noteq> i) (books d)\<rparr>"
  have run: "exec d (DeleteBook i) = Inr ?d'"
    using assms by (simp add: delete_book_def)
  have all: "get_books ?d' ''All'' = filter (\<lambda>b. book_id b \<noteq> i) (get_books d ''All'')"
    by (simp add: get_books_def fetchall_def book_id_def)
  have gone: "i \<notin> book_id ` set (get_books ?d' ''All'')"
    unfolding all by auto
  have again: "exec ?d' (DeleteBook i) = Inr ?d'"
    using assms by (simp add: delete_book_def)
  show ?thesis
    using run all gone again by (intro exI [of _ ?d']) simp
qed

theorem delete_book_removes_witness:
  "sqlite_integer 2
   \<and> exec shelf (DeleteBook 2)
       = Inr \<lparr>users = [],
              books = [(1, ''Dune'', ''Herbert'', ''Fiction''), (4, ''Emma'', ''Austen'', ''Fiction'')],
              books_seq = 5\<rparr>
   \<and> 2 \<notin> book_id ` set (get_books \<lparr>users = [],
              books = [(1, ''Dune'', ''Herbert'', ''Fiction''), (4, ''Emma'', ''Austen'', ''Fiction'')],
              books_seq = 5\<rparr> ''All'')"
proof -
  have h2: "sqlite_integer 2"
    by (simp add: sqlite_integer_def MIN_ROWID_def MAX_ROWID_def)
  have e: "exec shelf (DeleteBook 2)
       = Inr \<lparr>users = [],
              books = [(1, ''Dune'', ''Herbert'', ''Fiction''), (4, ''Emma'', ''Austen'', ''Fiction'')],
              books_seq = 5\<rparr>"
    using h2 by (simp add: delete_book_def shelf_def)
  from delete_book_removes [OF h2, of shelf] e
  show ?thesis using h2 by auto
qed

subsection \<open>New ids\<close>

lemma history_nonempty: "history d cmds \<noteq> []"
  by (cases cmds) auto

lemma exec_seq_mono: "exec d x = Inr d' \<Longrightarrow> books_seq d \<le> books_seq d'"
  by (cases x) (auto simp: register_user_def add_book_def edit_book_def delete_book_def Let_def split: if_splits)

lemma add_book_ids_bounded:
  assumes "add_book d t a c = Inr d'" and "ids_bounded d"
  shows "ids_bounded d'"
proof -
  have d': "d' = d\<lparr>books := books d @ [(books_seq d + 1, t, a, c)], books_seq := books_seq d + 1\<rparr>"
    using assms(1) by (simp add: add_book_def Let_def split: if_splits)
  have "col0 b \<le> books_seq d + 1" if "b \<in> set (books d)" for b
    using assms(2) that by (force simp: ids_bounded_def)
  then show ?thesis unfolding d' by (auto simp: ids_bounded_def)
qed

lemma edit_book_ids_bounded:
  assumes "edit_book d i t a c = Inr d'" and "ids_bounded d"
  shows "ids_bounded d'"
proof -
  have d': "d' = d\<lparr>books := map (\<lambda>b. if col0 b = i then (col0 b, t, a, c) else b) (books d)\<rparr>"
    using assms(1) by (simp add: edit_book_def split: if_splits)
  have "col0 b \<le> books_seq d" if "b \<in> set (books d)" for b
    using assms(2) that by (simp add: ids_bounded_def)
  then show ?thesis unfolding d' by (auto simp: ids_bounded_def)
qed

lemma delete_book_ids_bounded:
  assumes "delete_book d i = Inr d'" and "ids_bounded d"
  shows "ids_bounded d'"
proof -
  have d': "d' = d\<lparr>books := filter (\<lambda>b. col0 b \<noteq> i) (books d)\<rparr>"
    using assms(1) by (simp add: delete_book_def split: if_splits)
  have "col0 b \<le> books_seq d" if "b \<in> set (books d)" for b
    using assms(2) that by (simp add: ids_bounded_def)
  then show ?thesis unfolding d' by (auto simp: ids_bounded_def)
qed

lemma exec_ids_bounded: "exec d x = Inr d' \<Longrightarrow> ids_bounded d \<Longrightarrow> ids_bounded d'"
proof (cases x)
  case (RegisterUser u p)
  assume "exec d x = Inr d'" and "ids_bounded d"
  then show ?thesis using RegisterUser by (force simp: ids_bounded_def register_user_def)
next
  case (AddBook t a c)
  assume "exec d x = Inr d'" and "ids_bounded d"
  then show ?thesis using AddBook add_book_ids_bounded by simp
next
  case (EditBook i t a c)
  assume "exec d x = Inr d'" and "ids_bounded d"
  then show ?thesis using EditBook edit_book_ids_bounded by simp
next
  case (DeleteBook i)
  assume "exec d x = Inr d'" and "ids_bounded d"
  then show ?thesis using DeleteBook delete_book_ids_bounded by simp
qed

lemma history_bounded:
  "ids_bounded d \<Longrightarrow> s \<in> set (history d cmds) \<Longrightarrow>
     ids_bounded s \<and> books_seq s \<le> books_seq (last (history d cmds))"
proof (induction cmds arbitrary: d s)
  case Nil
  then show ?case by simp
next
  case (Cons x xs)
  show ?case
  proof (cases "exec d x")
    case (Inl e)
    then have h: "history d (x # xs) = d # history d xs" by simp
    have l: "last (history d (x # xs)) = last (history d xs)"
      using h history_nonempty by simp
    have "s = d \<or> s \<in> set (history d xs)" using Cons.prems(2) h by simp
    moreover have "d \<in> set (history d xs)" by (cases xs) auto
    ultimately have "s \<in> set (history d xs)" by blast
    then show ?thesis using Cons.IH [OF Cons.prems(1)] l by simp
  next
    case (Inr d')
    then have h: "history d (x # xs) = d # history d' xs" by simp
    have l: "last (history d (x # xs)) = last (history d' xs)"
      using h history_nonempty by simp
    have b': "ids_bounded d'" using exec_ids_bounded [OF Inr Cons.prems(1)] .
    have d'in: "d' \<in> set (history d' xs)" by (cases xs) auto
    have "s = d \<or> s \<in> set (history d' xs)" using Cons.prems(2) h by simp
    then show ?thesis
    proof
      assume "s = d"
      moreover have "books_seq d \<le> books_seq d'" using exec_seq_mono [OF Inr] .
      moreover have "books_seq d' \<le> books_seq (last (history d' xs))"
        using Cons.IH [OF b' d'in] by simp
      ultimately show ?thesis using Cons.prems(1) l by simp
    next
      assume "s \<in> set (history d' xs)"
      then show ?thesis using Cons.IH [OF b'] l by simp
    qed
  qed
qed

lemma ids_bounded_fresh: "ids_bounded (init_db None)"
  by (simp add: ids_bounded_def init_db_def fresh_db_def)

lemma ids_ever_le_seq:
  assumes "n \<in> set (ids_ever cmds)"
  shows "n \<le> books_seq (state_after cmds)"
proof -
  from assms obtain s b where s: "s \<in> set (history (init_db None) cmds)"
    and b: "b \<in> set (books s)" and n: "n = col0 b"
    by (auto simp: ids_ever_def book_id_def)
  have "ids_bounded s \<and> books_seq s \<le> books_seq (state_after cmds)"
    using history_bounded [OF ids_bounded_fresh s] by (simp add: state_after_def)
  then show ?thesis using b n by (auto simp: ids_bounded_def)
qed

text \<open>
  Two facts about every state the file can reach: the id sequence has grown by at most
  one per call, and the rows of the table are in the order of their ids, which are
  pairwise distinct.
\<close>

lemma exec_seq_step: "exec d x = Inr d' \<Longrightarrow> books_seq d' \<le> books_seq d + 1"
  by (cases x) (auto simp: register_user_def add_book_def edit_book_def delete_book_def Let_def split: if_splits)

lemma history_seq_le_length:
  "books_seq (last (history d cmds)) \<le> books_seq d + int (length cmds)"
proof (induction cmds arbitrary: d)
  case Nil
  then show ?case by simp
next
  case (Cons x xs)
  show ?case
  proof (cases "exec d x")
    case (Inl e)
    then have "last (history d (x # xs)) = last (history d xs)"
      using history_nonempty by simp
    then show ?thesis using Cons.IH [of d] by simp
  next
    case (Inr d')
    then have "last (history d (x # xs)) = last (history d' xs)"
      using history_nonempty by simp
    then show ?thesis using Cons.IH [of d'] exec_seq_step [OF Inr] by simp
  qed
qed

lemma books_seq_le_length: "books_seq (state_after cmds) \<le> int (length cmds)"
  using history_seq_le_length [of "init_db None" cmds]
  by (simp add: state_after_def init_db_def fresh_db_def)

lemma map_col0_edit:
  "map col0 (map (\<lambda>b. if col0 b = i then (col0 b, t, a, c) else b) bs) = map col0 bs"
  by (induction bs) auto

lemma exec_ids_increasing:
  assumes "exec d x = Inr d'" and "ids_bounded d" and "ids_increasing d"
  shows "ids_increasing d'"
proof (cases x)
  case (RegisterUser u p)
  then show ?thesis using assms by (auto simp: ids_increasing_def register_user_def)
next
  case (AddBook t a c)
  then have d': "d' = d\<lparr>books := books d @ [(books_seq d + 1, t, a, c)], books_seq := books_seq d + 1\<rparr>"
    using assms(1) by (simp add: add_book_def Let_def split: if_splits)
  have "col0 b < books_seq d + 1" if "b \<in> set (books d)" for b
    using assms(2) that by (force simp: ids_bounded_def)
  then show ?thesis using assms(3) unfolding d'
    by (auto simp: ids_increasing_def sorted_wrt_append)
next
  case (EditBook i t a c)
  then have d': "d' = d\<lparr>books := map (\<lambda>b. if col0 b = i then (col0 b, t, a, c) else b) (books d)\<rparr>"
    using assms(1) by (simp add: edit_book_def split: if_splits)
  show ?thesis using assms(3) unfolding d' by (simp add: ids_increasing_def map_col0_edit del: map_map)
next
  case (DeleteBook i)
  then have d': "d' = d\<lparr>books := filter (\<lambda>b. col0 b \<noteq> i) (books d)\<rparr>"
    using assms(1) by (simp add: delete_book_def split: if_splits)
  have "sorted_wrt (<) (map col0 (filter (\<lambda>b. col0 b \<noteq> i) bs))" if "sorted_wrt (<) (map col0 bs)" for bs :: "book_row list"
    using that by (induction bs) auto
  then show ?thesis using assms(3) unfolding d' by (simp add: ids_increasing_def)
qed

lemma history_ids_increasing:
  "ids_bounded d \<Longrightarrow> ids_increasing d \<Longrightarrow> s \<in> set (history d cmds) \<Longrightarrow> ids_increasing s"
proof (induction cmds arbitrary: d)
  case Nil
  then show ?case by simp
next
  case (Cons x xs)
  show ?case
  proof (cases "exec d x")
    case (Inl e)
    then have "s = d \<or> s \<in> set (history d xs)" using Cons.prems(3) by simp
    then show ?thesis using Cons.IH [OF Cons.prems(1,2)] Cons.prems(2) by blast
  next
    case (Inr d')
    then have "s = d \<or> s \<in> set (history d' xs)" using Cons.prems(3) by simp
    moreover have "ids_bounded d'" using exec_ids_bounded [OF Inr Cons.prems(1)] .
    moreover have "ids_increasing d'" using exec_ids_increasing [OF Inr Cons.prems(1,2)] .
    ultimately show ?thesis using Cons.IH [of d'] Cons.prems(2) by blast
  qed
qed

lemma state_after_ids_increasing: "sorted_wrt (<) (map book_id (get_books (state_after cmds) ''All''))"
proof -
  have "last (history (init_db None) cmds) \<in> set (history (init_db None) cmds)"
    using history_nonempty by simp
  moreover have "ids_increasing (init_db None)"
    by (simp add: ids_increasing_def init_db_def fresh_db_def)
  ultimately have "ids_increasing (state_after cmds)"
    using history_ids_increasing [OF ids_bounded_fresh] by (simp add: state_after_def)
  moreover have "book_id = col0" by (rule ext) (simp add: book_id_def)
  ultimately show ?thesis by (simp add: ids_increasing_def get_books_def fetchall_def)
qed

text \<open>
  C3. Take the state of the file after any sequence of calls since \<open>init_db\<close> created
  it, with the id sequence below the largest row id (by \<open>books_seq_le_length\<close> that is
  every state reached in fewer than \<open>2 ^ 63 - 1\<close> calls). Then \<open>add_book\<close> raises
  no error, leaves the users alone, and \<open>get_books ''All''\<close> afterwards is the list from
  before with one row appended, whose fields are the given title, author and category
  and whose id is none of the ids that any earlier state of the file has held, deleted
  rows included.
\<close>

theorem add_book_new_id:
  assumes "books_seq (state_after cmds) < MAX_ROWID"
  shows "\<exists>d' n. add_book (state_after cmds) t a c = Inr d'
           \<and> get_books d' ''All'' = get_books (state_after cmds) ''All'' @ [(n, t, a, c)]
           \<and> n \<notin> set (ids_ever cmds)
           \<and> users d' = users (state_after cmds)"
proof -
  let ?d = "state_after cmds"
  let ?n = "books_seq ?d + 1"
  let ?d' = "?d\<lparr>books := books ?d @ [(?n, t, a, c)], books_seq := ?n\<rparr>"
  have run: "add_book ?d t a c = Inr ?d'"
    using assms by (simp add: add_book_def Let_def)
  have rows: "get_books ?d' ''All'' = get_books ?d ''All'' @ [(?n, t, a, c)]"
    by (simp add: get_books_def fetchall_def)
  have new: "?n \<notin> set (ids_ever cmds)"
  proof
    assume "?n \<in> set (ids_ever cmds)"
    then have "?n \<le> books_seq ?d" by (rule ids_ever_le_seq)
    then show False by simp
  qed
  show ?thesis using run rows new by (intro exI [of _ ?d'] exI [of _ ?n]) simp
qed

lemma session_state:
  "state_after session
     = \<lparr>users = [], books = [(1, ''Dune'', ''Herbert'', ''Fiction'')], books_seq = 2\<rparr>"
  by code_simp

theorem add_book_new_id_witness:
  "books_seq (state_after session) < MAX_ROWID
   \<and> add_book (state_after session) ''Algebra'' ''Lang'' ''Academic''
       = Inr \<lparr>users = [], books = [(1, ''Dune'', ''Herbert'', ''Fiction''), (3, ''Algebra'', ''Lang'', ''Academic'')], books_seq = 3\<rparr>
   \<and> 3 \<notin> set (ids_ever session)
   \<and> 2 \<in> set (ids_ever session)
   \<and> 2 \<notin> book_id ` set (get_books (state_after session) ''All'')"
proof -
  have h: "books_seq (state_after session) < MAX_ROWID" by code_simp
  have e: "add_book (state_after session) ''Algebra'' ''Lang'' ''Academic''
       = Inr \<lparr>users = [], books = [(1, ''Dune'', ''Herbert'', ''Fiction''), (3, ''Algebra'', ''Lang'', ''Academic'')], books_seq = 3\<rparr>"
    by code_simp
  have i: "2 \<in> set (ids_ever session)" by code_simp
  have j: "2 \<notin> book_id ` set (get_books (state_after session) ''All'')" by code_simp
  from add_book_new_id [OF h, of "''Algebra''" "''Lang''" "''Academic''"]
  obtain d' n where "add_book (state_after session) ''Algebra'' ''Lang'' ''Academic'' = Inr d'"
    and g: "get_books d' ''All'' = get_books (state_after session) ''All'' @ [(n, ''Algebra'', ''Lang'', ''Academic'')]"
    and n: "n \<notin> set (ids_ever session)" by blast
  then have d': "d' = \<lparr>users = [], books = [(1, ''Dune'', ''Herbert'', ''Fiction''), (3, ''Algebra'', ''Lang'', ''Academic'')], books_seq = 3\<rparr>"
    using e by simp
  have "n = 3" using g unfolding d' by (simp add: get_books_def fetchall_def session_state)
  then show ?thesis using h e i j n by simp
qed

subsection \<open>The CSV export\<close>

lemma push_Nil [simp]: "push [] rows = rows"
  by (simp add: push_def)

lemma push_Cons [simp]: "push (c # f) rows = push_char c (push f rows)"
  by (simp add: push_def)




































end
